theory Spec2Isabelle
  imports Complex_Main "HOL-Library.Word" "HOL-Library.Multiset"
begin

section \<open>The DCA1000 capture-board driver (mmwave/dataloader/adc.py)\<close>

text \<open>
  A shallow embedding of the module \<^verbatim>\<open>adc.py\<close>: its module constants, the command
  message built by \<^verbatim>\<open>_send_command\<close>, the packet decoder \<^verbatim>\<open>_read_data_packet\<close>, the two
  receive loops \<^verbatim>\<open>read\<close> and \<^verbatim>\<open>read_frames\<close>, and the reshaping \<^verbatim>\<open>organize_frames\<close>.

  Python integers are \<open>int\<close>; a byte is an \<open>8 word\<close>, a sample an \<open>16 word\<close>
  (\<^verbatim>\<open>np.uint16\<close>). Every exception the code can raise is a value of \<open>error\<close>, and a
  function that may raise returns \<open>error + 'a\<close>.
\<close>

subsection \<open>Exceptions\<close>

datatype error =
    Timeout      \<comment> \<open>\<^verbatim>\<open>socket.timeout\<close>: no datagram arrived in time\<close>
  | StructError  \<comment> \<open>\<^verbatim>\<open>struct.error\<close>: wrong buffer size for \<^verbatim>\<open>struct.unpack\<close>\<close>
  | ValueError   \<comment> \<open>numpy: shapes do not match, negative dimension, odd buffer\<close>
  | TypeError    \<comment> \<open>numpy: a slice bound that is not an integer\<close>
  | IndexError   \<comment> \<open>numpy: index out of bounds\<close>
  | BinasciiError \<comment> \<open>\<^verbatim>\<open>binascii.Error\<close>: the text is not an even number of hex digits\<close>

type_synonym byte = "8 word"
type_synonym uint16 = "16 word"

subsection \<open>Module constants\<close>

record adc_params =
  chirps :: int
  rx :: int
  tx :: int
  samples :: int
  IQ :: int
  bytes :: int

definition ADC_PARAMS :: adc_params where
  "ADC_PARAMS = \<lparr>chirps = 128, rx = 4, tx = 1, samples = 256, IQ = 1, bytes = 4\<rparr>"

definition BYTES_IN_PACKET :: int where
  "BYTES_IN_PACKET = 1456"

definition BYTES_IN_FRAME :: int where
  "BYTES_IN_FRAME = chirps ADC_PARAMS * rx ADC_PARAMS * tx ADC_PARAMS *
                    IQ ADC_PARAMS * samples ADC_PARAMS * bytes ADC_PARAMS"

definition BYTES_IN_FRAME_CLIPPED :: int where
  "BYTES_IN_FRAME_CLIPPED = (BYTES_IN_FRAME div BYTES_IN_PACKET) * BYTES_IN_PACKET"

definition PACKETS_IN_FRAME_CLIPPED :: int where
  "PACKETS_IN_FRAME_CLIPPED = BYTES_IN_FRAME div BYTES_IN_PACKET"

definition UINT16_IN_PACKET :: int where
  "UINT16_IN_PACKET = BYTES_IN_PACKET div 2"

definition UINT16_IN_FRAME :: int where
  "UINT16_IN_FRAME = BYTES_IN_FRAME div 2"

subsection \<open>The command message\<close>

datatype CMD =
    RESET_FPGA_CMD_CODE
  | RESET_AR_DEV_CMD_CODE
  | CONFIG_FPGA_GEN_CMD_CODE
  | CONFIG_EEPROM_CMD_CODE
  | RECORD_START_CMD_CODE
  | RECORD_STOP_CMD_CODE
  | PLAYBACK_START_CMD_CODE
  | PLAYBACK_STOP_CMD_CODE
  | SYSTEM_CONNECT_CMD_CODE
  | SYSTEM_ERROR_CMD_CODE
  | CONFIG_PACKET_DATA_CMD_CODE
  | CONFIG_DATA_MODE_AR_DEV_CMD_CODE
  | INIT_FPGA_PLAYBACK_CMD_CODE
  | READ_FPGA_VERSION_CMD_CODE

text \<open>\<^verbatim>\<open>CMD.__str__\<close>: the value of the enumeration member.\<close>

fun CMD_str :: "CMD \<Rightarrow> string" where
  "CMD_str RESET_FPGA_CMD_CODE = ''0100''"
| "CMD_str RESET_AR_DEV_CMD_CODE = ''0200''"
| "CMD_str CONFIG_FPGA_GEN_CMD_CODE = ''0300''"
| "CMD_str CONFIG_EEPROM_CMD_CODE = ''0400''"
| "CMD_str RECORD_START_CMD_CODE = ''0500''"
| "CMD_str RECORD_STOP_CMD_CODE = ''0600''"
| "CMD_str PLAYBACK_START_CMD_CODE = ''0700''"
| "CMD_str PLAYBACK_STOP_CMD_CODE = ''0800''"
| "CMD_str SYSTEM_CONNECT_CMD_CODE = ''0900''"
| "CMD_str SYSTEM_ERROR_CMD_CODE = ''0a00''"
| "CMD_str CONFIG_PACKET_DATA_CMD_CODE = ''0b00''"
| "CMD_str CONFIG_DATA_MODE_AR_DEV_CMD_CODE = ''0c00''"
| "CMD_str INIT_FPGA_PLAYBACK_CMD_CODE = ''0d00''"
| "CMD_str READ_FPGA_VERSION_CMD_CODE = ''0e00''"

definition CONFIG_HEADER :: string where
  "CONFIG_HEADER = ''5aa5''"

definition CONFIG_FOOTER :: string where
  "CONFIG_FOOTER = ''aaee''"

text \<open>
  \<^verbatim>\<open>codecs.decode(text, 'hex')\<close>, that is \<^verbatim>\<open>binascii.a2b_hex\<close>: two hex digits (of
  either case) make one byte; an odd number of characters or any other character raises.
\<close>

definition hex_digit :: "char \<Rightarrow> nat option" where
  "hex_digit c =
     (let n = of_char c :: nat in
      if 48 \<le> n \<and> n \<le> 57 then Some (n - 48)
      else if 97 \<le> n \<and> n \<le> 102 then Some (n - 87)
      else if 65 \<le> n \<and> n \<le> 70 then Some (n - 55)
      else None)"

fun hex_decode :: "string \<Rightarrow> error + byte list" where
  "hex_decode [] = Inr []"
| "hex_decode [c] = Inl BinasciiError"
| "hex_decode (c1 # c2 # cs) =
     (case (hex_digit c1, hex_digit c2) of
        (Some h, Some l) \<Rightarrow>
          (case hex_decode cs of
             Inl e \<Rightarrow> Inl e
           | Inr bs \<Rightarrow> Inr (of_nat (16 * h + l) # bs))
      | _ \<Rightarrow> Inl BinasciiError)"

text \<open>
  The message \<^verbatim>\<open>msg\<close> that \<^verbatim>\<open>_send_command(cmd, length, body)\<close> builds and sends:
  the five hex texts joined, then decoded to bytes.
\<close>

definition send_command_msg :: "CMD \<Rightarrow> string \<Rightarrow> string \<Rightarrow> error + byte list" where
  "send_command_msg cmd len body =
     hex_decode (CONFIG_HEADER @ CMD_str cmd @ len @ body @ CONFIG_FOOTER)"

subsection \<open>The packet decoder\<close>

text \<open>
  \<^verbatim>\<open>struct.unpack('<1l', b)\<close>: exactly four bytes, little-endian, two's complement.
  \<^verbatim>\<open>struct.unpack('>Q', b)\<close>: exactly eight bytes, big-endian, unsigned.
\<close>

fun from_le :: "byte list \<Rightarrow> nat" where
  "from_le [] = 0"
| "from_le (b # bs) = unat b + 256 * from_le bs"

definition from_be :: "byte list \<Rightarrow> nat" where
  "from_be bs = foldl (\<lambda>acc b. 256 * acc + unat b) 0 bs"

definition unpack_l :: "byte list \<Rightarrow> error + int" where
  "unpack_l b =
     (if length b \<noteq> 4 then Inl StructError
      else let v = int (from_le b) in Inr (if v \<ge> 2 ^ 31 then v - 2 ^ 32 else v))"

definition unpack_Q :: "byte list \<Rightarrow> error + int" where
  "unpack_Q b = (if length b \<noteq> 8 then Inl StructError else Inr (int (from_be b)))"

text \<open>
  \<^verbatim>\<open>np.frombuffer(b, dtype=np.uint16)\<close>: pairs of bytes, low byte first; a buffer of
  odd size raises \<^verbatim>\<open>ValueError\<close>.
\<close>

fun frombuffer_uint16 :: "byte list \<Rightarrow> error + uint16 list" where
  "frombuffer_uint16 [] = Inr []"
| "frombuffer_uint16 [b] = Inl ValueError"
| "frombuffer_uint16 (lo # hi # bs) =
     (case frombuffer_uint16 bs of
        Inl e \<Rightarrow> Inl e
      | Inr ws \<Rightarrow> Inr (of_nat (unat lo + 256 * unat hi) # ws))"

text \<open>
  The data socket is the list of the datagrams that \<^verbatim>\<open>recvfrom(MAX_PACKET_SIZE)\<close> will
  return, in order of delivery; when none is left the receive times out.
  A decoded packet is \<^verbatim>\<open>(packet_num, byte_count, packet_data)\<close>.
\<close>

type_synonym socket = "byte list list"
type_synonym packet = "int \<times> int \<times> uint16 list"

definition decode_packet :: "byte list \<Rightarrow> error + packet" where
  "decode_packet data =
     (case unpack_l (take 4 data) of
        Inl e \<Rightarrow> Inl e
      | Inr packet_num \<Rightarrow>
          (case unpack_Q ([0, 0] @ rev (take 6 (drop 4 data))) of
             Inl e \<Rightarrow> Inl e
           | Inr byte_count \<Rightarrow>
               (case frombuffer_uint16 (drop 10 data) of
                  Inl e \<Rightarrow> Inl e
                | Inr packet_data \<Rightarrow> Inr (packet_num, byte_count, packet_data))))"

fun read_data_packet :: "socket \<Rightarrow> error + (packet \<times> socket)" where
  "read_data_packet [] = Inl Timeout"
| "read_data_packet (data # sock) =
     (case decode_packet data of
        Inl e \<Rightarrow> Inl e
      | Inr p \<Rightarrow> Inr (p, sock))"

text \<open>
  The wire format of a data packet, as the board sends it: the sequence number in four
  bytes, little-endian two's complement; the byte counter in six bytes, little-endian;
  the samples in two bytes each, low byte first. The repository holds only the decoder;
  this encoder builds synthetic datagrams.
\<close>

fun le_bytes :: "nat \<Rightarrow> nat \<Rightarrow> byte list" where
  "le_bytes 0 n = []"
| "le_bytes (Suc k) n = of_nat (n mod 256) # le_bytes k (n div 256)"

definition encode_packet :: "int \<Rightarrow> int \<Rightarrow> uint16 list \<Rightarrow> byte list" where
  "encode_packet s b ws =
     le_bytes 4 (nat (s mod 2 ^ 32)) @ le_bytes 6 (nat b) @ concat (map (\<lambda>w. le_bytes 2 (unat w)) ws)"

subsection \<open>numpy array operations used by the receive loops\<close>

text \<open>
  \<^verbatim>\<open>np.zeros(n, dtype=np.uint16)\<close>: a negative size raises \<^verbatim>\<open>ValueError\<close>.
\<close>

definition zeros :: "int \<Rightarrow> error + uint16 list" where
  "zeros n = (if n < 0 then Inl ValueError else Inr (replicate (nat n) 0))"

text \<open>
  A slice bound \<open>i\<close> on an array of length \<open>n\<close>: negative bounds count from the end, and
  every bound is clipped to the array.
\<close>

definition slice_bound :: "int \<Rightarrow> int \<Rightarrow> nat" where
  "slice_bound n i = nat (if i < 0 then max (i + n) 0 else min i n)"

text \<open>
  \<^verbatim>\<open>a[i:j] = v\<close> on a one-dimensional array: the slice has \<open>m\<close> elements; \<open>v\<close> must have
  \<open>m\<close> elements, or one element, which is then repeated; any other size raises
  \<^verbatim>\<open>ValueError\<close>. The array keeps its length.
\<close>

definition set_slice :: "'a list \<Rightarrow> int \<Rightarrow> int \<Rightarrow> 'a list \<Rightarrow> error + 'a list" where
  "set_slice a i j v =
     (let n = int (length a);
          start = slice_bound n i;
          stop = slice_bound n j;
          m = stop - start
      in if length v = m then Inr (take start a @ v @ drop (start + m) a)
         else if length v = 1 then Inr (take start a @ replicate m (hd v) @ drop (start + m) a)
         else Inl ValueError)"

text \<open>
  \<^verbatim>\<open>a[i] = v\<close> with an integer index and an array \<open>v\<close>: an index outside \<open>[-n, n)\<close> raises
  \<^verbatim>\<open>IndexError\<close>; an array that does not hold exactly one element cannot be stored in
  one element and raises \<^verbatim>\<open>ValueError\<close>.
\<close>

definition set_item :: "'a list \<Rightarrow> int \<Rightarrow> 'a list \<Rightarrow> error + 'a list" where
  "set_item a i v =
     (let n = int (length a)
      in if i < - n \<or> n \<le> i then Inl IndexError
         else if length v \<noteq> 1 then Inl ValueError
         else Inr (a[nat (if i < 0 then i + n else i) := hd v]))"

subsection \<open>The single-frame read\<close>

text \<open>
  The first loop of \<^verbatim>\<open>read\<close>: packets are read and dropped until one has a byte count
  that is a multiple of the clipped frame size; its data goes to the start of the frame
  (outside any \<^verbatim>\<open>try\<close>) and \<^verbatim>\<open>packets_read\<close> becomes 1.
\<close>

function read_wait :: "socket \<Rightarrow> uint16 list \<Rightarrow> error + (uint16 list \<times> int \<times> socket)" where
  "read_wait sock ret_frame =
     (case read_data_packet sock of
        Inl e \<Rightarrow> Inl e
      | Inr ((packet_num, byte_count, packet_data), sock') \<Rightarrow>
          if byte_count mod BYTES_IN_FRAME_CLIPPED = 0 then
            (case set_slice ret_frame 0 UINT16_IN_PACKET packet_data of
               Inl e \<Rightarrow> Inl e
             | Inr ret_frame' \<Rightarrow> Inr (ret_frame', 1, sock'))
          else read_wait sock' ret_frame)"
  by pat_completeness auto
termination
  by (relation "measure (\<lambda>(sock, ret_frame). length sock)")
     (auto elim!: read_data_packet.elims split: sum.splits)

text \<open>
  The body of the \<^verbatim>\<open>try\<close> in the second loop, with its \<^verbatim>\<open>except: pass\<close>: the packet's
  data is written to the slot \<open>(packet_num - 1) mod PACKETS_IN_FRAME_CLIPPED\<close>; when the
  write raises, the frame is left as it was.
\<close>

definition place_packet :: "uint16 list \<Rightarrow> int \<Rightarrow> uint16 list \<Rightarrow> uint16 list" where
  "place_packet ret_frame packet_num packet_data =
     (let curr_idx = (packet_num - 1) mod PACKETS_IN_FRAME_CLIPPED
      in case set_slice ret_frame (curr_idx * UINT16_IN_PACKET)
                ((curr_idx + 1) * UINT16_IN_PACKET) packet_data of
           Inl e \<Rightarrow> ret_frame
         | Inr ret_frame' \<Rightarrow> ret_frame')"

text \<open>
  The second loop of \<^verbatim>\<open>read\<close>. It returns the frame, the value stored in
  \<^verbatim>\<open>self.lost_packets\<close>, and the datagrams not yet received.
\<close>

function read_rest :: "socket \<Rightarrow> uint16 list \<Rightarrow> int \<Rightarrow> error + (uint16 list \<times> int \<times> socket)" where
  "read_rest sock ret_frame packets_read =
     (case read_data_packet sock of
        Inl e \<Rightarrow> Inl e
      | Inr ((packet_num, byte_count, packet_data), sock') \<Rightarrow>
          if byte_count mod BYTES_IN_FRAME_CLIPPED = 0 then
            Inr (ret_frame, PACKETS_IN_FRAME_CLIPPED - (packets_read + 1), sock')
          else
            read_rest sock' (place_packet ret_frame packet_num packet_data)
              (if packets_read + 1 > PACKETS_IN_FRAME_CLIPPED then 0 else packets_read + 1))"
  by pat_completeness auto
termination
  by (relation "measure (\<lambda>(sock, ret_frame, packets_read). length sock)")
     (auto elim!: read_data_packet.elims split: sum.splits)

definition read :: "socket \<Rightarrow> error + (uint16 list \<times> int \<times> socket)" where
  "read sock =
     (case zeros UINT16_IN_FRAME of
        Inl e \<Rightarrow> Inl e
      | Inr ret_frame \<Rightarrow>
          (case read_wait sock ret_frame of
             Inl e \<Rightarrow> Inl e
           | Inr (ret_frame', packets_read, sock') \<Rightarrow> read_rest sock' ret_frame' packets_read))"

subsection \<open>The multi-frame read\<close>

text \<open>
  The loop of \<^verbatim>\<open>read_frames\<close>. For a packet whose byte count has reached
  \<^verbatim>\<open>data_end_byte\<close> the code computes \<^verbatim>\<open>next_frame_start = (data_end_byte - byte_count)/2\<close>,
  which in Python 3 is a \<^verbatim>\<open>float\<close> whatever its operands, and then evaluates
  \<^verbatim>\<open>packet_data[0:next_frame_start]\<close>; numpy refuses a slice bound that is not an integer
  with \<^verbatim>\<open>TypeError\<close>, before anything is stored or returned. For every other packet the
  code runs \<^verbatim>\<open>ret_frame[packet_num - 1] = packet_data\<close>, an assignment to one element.
  The type of a normal result is that of the \<^verbatim>\<open>return\<close> statement: the frames, the
  leftover, and the datagrams not yet received.
\<close>

function read_frames_loop ::
  "socket \<Rightarrow> uint16 list \<Rightarrow> int \<Rightarrow> int \<Rightarrow> error + (uint16 list \<times> uint16 list \<times> socket)" where
  "read_frames_loop sock ret_frame packets_read data_end_byte =
     (case read_data_packet sock of
        Inl e \<Rightarrow> Inl e
      | Inr ((packet_num, byte_count, packet_data), sock') \<Rightarrow>
          if byte_count \<ge> data_end_byte then Inl TypeError
          else
            (case set_item ret_frame (packet_num - 1) packet_data of
               Inl e \<Rightarrow> Inl e
             | Inr ret_frame' \<Rightarrow>
                 read_frames_loop sock' ret_frame' (packets_read + 1) data_end_byte))"
  by pat_completeness auto
termination
  by (relation "measure (\<lambda>(sock, ret_frame, packets_read, data_end_byte). length sock)")
     (auto elim!: read_data_packet.elims split: sum.splits)

definition read_frames ::
  "uint16 list \<Rightarrow> int \<Rightarrow> socket \<Rightarrow> error + (uint16 list \<times> uint16 list \<times> socket)" where
  "read_frames leftover num_frames sock =
     (let uint16_preread = int (length leftover)
      in case zeros (num_frames * UINT16_IN_FRAME - uint16_preread) of
           Inl e \<Rightarrow> Inl e
         | Inr ret_frame \<Rightarrow>
             (case read_data_packet sock of
                Inl e \<Rightarrow> Inl e
              | Inr ((packet_num, byte_count, packet_data), sock') \<Rightarrow>
                  (case set_slice ret_frame 0 UINT16_IN_PACKET packet_data of
                     Inl e \<Rightarrow> Inl e
                   | Inr ret_frame' \<Rightarrow>
                       (let data_start_byte = byte_count - BYTES_IN_PACKET - 2 * uint16_preread;
                            data_end_byte = data_start_byte + num_frames * BYTES_IN_FRAME
                        in read_frames_loop sock' ret_frame' 1 data_end_byte))))"

subsection \<open>Reshaping the samples\<close>

text \<open>
  \<^verbatim>\<open>organize_frames\<close>: the samples are read as signed 16-bit, reshaped in row-major order
  to \<open>(num_frames, chirps_per_frame, samples_per_chirp, complexity, num_rx)\<close>, the planes 0
  and 1 of the fourth axis become real and imaginary part, and the last two axes are
  swapped. The result is indexed \<open>[frame][chirp][rx][sample]\<close>.
\<close>

definition flat_index :: "nat \<Rightarrow> nat \<Rightarrow> nat \<Rightarrow> nat \<Rightarrow> nat \<Rightarrow> nat \<Rightarrow> nat \<Rightarrow> nat \<Rightarrow> nat \<Rightarrow> nat" where
  "flat_index chirps_per_frame samples_per_chirp complexity num_rx f c s k r =
     (((f * chirps_per_frame + c) * samples_per_chirp + s) * complexity + k) * num_rx + r"

definition organize_frames ::
  "uint16 list \<Rightarrow> nat \<Rightarrow> nat \<Rightarrow> nat \<Rightarrow> nat \<Rightarrow> nat \<Rightarrow> error + complex list list list list" where
  "organize_frames raw_data num_frames chirps_per_frame num_rx samples_per_chirp complexity =
     (let raw = map sint raw_data;
          elt = (\<lambda>f c s k r.
                  of_int (raw ! flat_index chirps_per_frame samples_per_chirp complexity num_rx f c s k r) :: real)
      in if length raw \<noteq> num_frames * chirps_per_frame * samples_per_chirp * complexity * num_rx
         then Inl ValueError
         else if complexity < 2 then Inl IndexError
         else Inr (map (\<lambda>f. map (\<lambda>c. map (\<lambda>r. map (\<lambda>s.
                     Complex (elt f c s 0 r) (elt f c s 1 r))
                   [0..<samples_per_chirp]) [0..<num_rx]) [0..<chirps_per_frame]) [0..<num_frames]))"

subsection \<open>Synthetic packet streams and notions used to state the properties\<close>

text \<open>
  An in-order stream as the board sends it: packet \<open>i\<close> of the stream has the sequence
  number \<open>n0 + i\<close>, the byte counter \<open>(n0 + i - 1) * BYTES_IN_PACKET\<close> (the bytes sent before
  it, the first packet of a session having the number 1) and the samples \<open>payload i\<close>.
\<close>

definition synth_packet :: "(nat \<Rightarrow> uint16 list) \<Rightarrow> int \<Rightarrow> nat \<Rightarrow> byte list" where
  "synth_packet payload n0 i =
     encode_packet (n0 + int i) ((n0 + int i - 1) * BYTES_IN_PACKET) (payload i)"

definition synth_stream :: "(nat \<Rightarrow> uint16 list) \<Rightarrow> int \<Rightarrow> nat \<Rightarrow> socket" where
  "synth_stream payload n0 cnt = map (synth_packet payload n0) [0..<cnt]"

text \<open>A payload of 728 samples for each packet, packet \<open>i\<close> filled with the value \<open>i + 1\<close>.\<close>

definition payload_example :: "nat \<Rightarrow> uint16 list" where
  "payload_example i = replicate 728 (of_nat (i + 1))"

text \<open>
  What one pass of the second loop of \<^verbatim>\<open>read\<close> does to the frame and to
  \<^verbatim>\<open>packets_read\<close> for a datagram that decodes to a packet whose byte count is not a
  multiple of the clipped frame size (\<open>interior\<close>).
\<close>

definition interior :: "byte list \<Rightarrow> bool" where
  "interior data =
     (case decode_packet data of
        Inl e \<Rightarrow> False
      | Inr (packet_num, byte_count, packet_data) \<Rightarrow> byte_count mod BYTES_IN_FRAME_CLIPPED \<noteq> 0)"

definition place_datagram :: "byte list \<Rightarrow> uint16 list \<Rightarrow> uint16 list" where
  "place_datagram data ret_frame =
     (case decode_packet data of
        Inl e \<Rightarrow> ret_frame
      | Inr (packet_num, byte_count, packet_data) \<Rightarrow> place_packet ret_frame packet_num packet_data)"

definition count_packet :: "int \<Rightarrow> int" where
  "count_packet packets_read =
     (if packets_read + 1 > PACKETS_IN_FRAME_CLIPPED then 0 else packets_read + 1)"

section \<open>Derived constants\<close>

lemma BYTES_IN_FRAME_val: "BYTES_IN_FRAME = 524288"
  by (simp add: BYTES_IN_FRAME_def ADC_PARAMS_def)

lemma BYTES_IN_FRAME_CLIPPED_val: "BYTES_IN_FRAME_CLIPPED = 524160"
  by (simp add: BYTES_IN_FRAME_CLIPPED_def BYTES_IN_FRAME_val BYTES_IN_PACKET_def)

lemma PACKETS_IN_FRAME_CLIPPED_val: "PACKETS_IN_FRAME_CLIPPED = 360"
  by (simp add: PACKETS_IN_FRAME_CLIPPED_def BYTES_IN_FRAME_val BYTES_IN_PACKET_def)

lemma UINT16_IN_PACKET_val: "UINT16_IN_PACKET = 728"
  by (simp add: UINT16_IN_PACKET_def BYTES_IN_PACKET_def)

lemma UINT16_IN_FRAME_val: "UINT16_IN_FRAME = 262144"
  by (simp add: UINT16_IN_FRAME_def BYTES_IN_FRAME_val)

text \<open>
  C8. With chirps = 128, rx = 4, tx = 1, IQ = 1, samples = 256 and bytes = 4 the module
  derives a frame of 524288 bytes, a clipped frame of 524160 bytes and 360 packets per
  clipped frame; the clipped frame is a multiple of the packet size and no larger than
  the frame.
\<close>

theorem derived_constants:
  "ADC_PARAMS = \<lparr>chirps = 128, rx = 4, tx = 1, samples = 256, IQ = 1, bytes = 4\<rparr>
   \<and> BYTES_IN_PACKET = 1456
   \<and> BYTES_IN_FRAME = 524288
   \<and> BYTES_IN_FRAME_CLIPPED = 524160
   \<and> PACKETS_IN_FRAME_CLIPPED = 360
   \<and> BYTES_IN_PACKET dvd BYTES_IN_FRAME_CLIPPED
   \<and> BYTES_IN_FRAME_CLIPPED \<le> BYTES_IN_FRAME"
  by (simp add: BYTES_IN_FRAME_val BYTES_IN_FRAME_CLIPPED_val PACKETS_IN_FRAME_CLIPPED_val
      ADC_PARAMS_def BYTES_IN_PACKET_def)


section \<open>The command message\<close>

lemma hex_decode_append:
  "hex_decode xs = Inr a \<Longrightarrow> hex_decode ys = Inr b \<Longrightarrow> hex_decode (xs @ ys) = Inr (a @ b)"
  by (induction xs arbitrary: a rule: hex_decode.induct)
     (auto split: option.splits sum.splits prod.splits)

lemma hex_decode_header: "hex_decode CONFIG_HEADER = Inr [0x5A, 0xA5]"
  by (simp add: CONFIG_HEADER_def hex_digit_def)

lemma hex_decode_footer: "hex_decode CONFIG_FOOTER = Inr [0xAA, 0xEE]"
  by (simp add: CONFIG_FOOTER_def hex_digit_def)

lemma hex_decode_CMD: "\<exists>c. hex_decode (CMD_str cmd) = Inr [c, 0] \<and> 1 \<le> unat c \<and> unat c \<le> 14"
  by (cases cmd) (simp_all add: hex_digit_def)

text \<open>
  C9. For every command code, every length field that is the hex text of two bytes,
  and every body that is the hex text of some bytes, the message built by
  \<^verbatim>\<open>_send_command\<close> is exactly: the header 0x5A 0xA5, the two bytes of the command
  code, the two bytes of the length field, the bytes of the body, the footer 0xAA 0xEE.
\<close>

theorem send_command_msg_format:
  assumes "hex_decode len = Inr lb" and "length lb = 2" and "hex_decode body = Inr bb"
  shows "\<exists>cb. hex_decode (CMD_str cmd) = Inr cb \<and> length cb = 2 \<and>
           send_command_msg cmd len body = Inr ([0x5A, 0xA5] @ cb @ lb @ bb @ [0xAA, 0xEE])"
proof -
  obtain c where c: "hex_decode (CMD_str cmd) = Inr [c, 0]"
    using hex_decode_CMD by blast
  have "hex_decode (body @ CONFIG_FOOTER) = Inr (bb @ [0xAA, 0xEE])"
    by (rule hex_decode_append [OF assms(3) hex_decode_footer])
  then have "hex_decode (len @ body @ CONFIG_FOOTER) = Inr (lb @ bb @ [0xAA, 0xEE])"
    by (rule hex_decode_append [OF assms(1)])
  then have "hex_decode (CMD_str cmd @ len @ body @ CONFIG_FOOTER) = Inr ([c, 0] @ lb @ bb @ [0xAA, 0xEE])"
    by (rule hex_decode_append [OF c])
  then have "hex_decode (CONFIG_HEADER @ CMD_str cmd @ len @ body @ CONFIG_FOOTER)
               = Inr ([0x5A, 0xA5] @ [c, 0] @ lb @ bb @ [0xAA, 0xEE])"
    by (rule hex_decode_append [OF hex_decode_header])
  then show ?thesis
    using c by (simp add: send_command_msg_def)
qed

text \<open>The message that \<^verbatim>\<open>configure\<close> sends for \<^verbatim>\<open>CONFIG_FPGA_GEN_CMD_CODE\<close>.\<close>

theorem send_command_msg_format_witness:
  "hex_decode ''0600'' = Inr [6, 0] \<and> length [6 :: byte, 0] = 2 \<and>
   hex_decode ''01010102031e'' = Inr [1, 1, 1, 2, 3, 0x1E] \<and>
   send_command_msg CONFIG_FPGA_GEN_CMD_CODE ''0600'' ''01010102031e''
     = Inr [0x5A, 0xA5, 3, 0, 6, 0, 1, 1, 1, 2, 3, 0x1E, 0xAA, 0xEE]"
proof -
  have l: "hex_decode ''0600'' = Inr [6, 0]" by (simp add: hex_digit_def)
  have b: "hex_decode ''01010102031e'' = Inr [1, 1, 1, 2, 3, 0x1E]" by (simp add: hex_digit_def)
  have c: "hex_decode (CMD_str CONFIG_FPGA_GEN_CMD_CODE) = Inr [3, 0]" by (simp add: hex_digit_def)
  show ?thesis
    using send_command_msg_format [OF l _ b, of CONFIG_FPGA_GEN_CMD_CODE] l b c by auto
qed

section \<open>The packet decoder\<close>

lemma length_le_bytes [simp]: "length (le_bytes k n) = k"
  by (induction k arbitrary: n) auto

lemma from_le_le_bytes: "from_le (le_bytes k n) = n mod 256 ^ k"
proof (induction k arbitrary: n)
  case 0
  then show ?case by simp
next
  case (Suc k)
  have "unat (of_nat (n mod 256) :: byte) = n mod 256"
    by (simp add: unat_of_nat)
  then show ?case
    using Suc by (simp add: mod_mult2_eq)
qed

lemma from_be_rev: "from_be (rev bs) = from_le bs"
  by (induction bs) (simp_all add: from_be_def)

lemma from_be_zero_pad: "from_be (0 # bs) = from_be bs"
  by (simp add: from_be_def)

lemma le_bytes_2: "le_bytes 2 n = [of_nat (n mod 256), of_nat (n div 256 mod 256)]"
  by (simp add: numeral_2_eq_2)

lemma le_bytes_4:
  "le_bytes 4 n = [of_nat (n mod 256), of_nat (n div 256 mod 256),
                   of_nat (n div 256 div 256 mod 256), of_nat (n div 256 div 256 div 256 mod 256)]"
proof -
  have "(4::nat) = Suc (Suc (Suc (Suc 0)))" by simp
  then show ?thesis by (simp only: le_bytes.simps)
qed

lemma le_bytes_6:
  "le_bytes 6 n = [of_nat (n mod 256), of_nat (n div 256 mod 256)] @ le_bytes 4 (n div 256 div 256)"
proof -
  have "(6::nat) = Suc (Suc 4)" by simp
  then show ?thesis by (simp only: le_bytes.simps append.simps)
qed

lemma word_of_le_bytes:
  fixes w :: uint16
  defines "lo \<equiv> (of_nat (unat w mod 256) :: byte)" and "hi \<equiv> (of_nat (unat w div 256 mod 256) :: byte)"
  shows "(of_nat (unat lo + 256 * unat hi) :: uint16) = w"
proof -
  have lt: "unat w < 65536" using unsigned_less [of w, where 'a = nat] by simp
  have "unat lo = unat w mod 256"
    by (simp add: lo_def unat_of_nat)
  moreover have "unat hi = unat w div 256"
    using lt by (simp add: hi_def unat_of_nat)
  ultimately have "unat lo + 256 * unat hi = unat w" by simp
  then show ?thesis by simp
qed

lemma frombuffer_words:
  "frombuffer_uint16 (concat (map (\<lambda>w. le_bytes 2 (unat w)) ws)) = Inr ws"
proof (induction ws)
  case Nil
  then show ?case by simp
next
  case (Cons w ws)
  show ?case
    by (simp only: list.map concat.simps le_bytes_2 append.simps frombuffer_uint16.simps
        Cons.IH [unfolded le_bytes_2] sum.case word_of_le_bytes)
qed

lemma signed32_mod:
  fixes s :: int
  assumes "- (2 ^ 31) \<le> s" "s < 2 ^ 31"
  shows "s mod 2 ^ 32 = (if s < 0 then s + 2 ^ 32 else s)"
proof (cases "s < 0")
  case True
  have "s mod 2 ^ 32 = (s + 2 ^ 32) mod 2 ^ 32" by simp
  also have "\<dots> = s + 2 ^ 32" using assms True by (intro mod_pos_pos_trivial) auto
  finally show ?thesis using True by simp
next
  case False
  then show ?thesis using assms by (simp add: mod_pos_pos_trivial)
qed

lemma decode_encode_packet:
  assumes s: "- (2 ^ 31) \<le> s" "s < 2 ^ 31" and b: "0 \<le> b" "b < 2 ^ 48"
  shows "decode_packet (encode_packet s b ws) = Inr (s, b, ws)"
proof -
  let ?S = "le_bytes 4 (nat (s mod 2 ^ 32))"
  let ?B = "le_bytes 6 (nat b)"
  let ?W = "concat (map (\<lambda>w. le_bytes 2 (unat w)) ws)"
  have t4: "take 4 (encode_packet s b ws) = ?S"
    by (simp add: encode_packet_def)
  have t6: "take 6 (drop 4 (encode_packet s b ws)) = ?B"
    by (simp add: encode_packet_def)
  have d10: "drop 10 (encode_packet s b ws) = ?W"
    by (simp add: encode_packet_def)
  have "int (from_le ?S) = s mod 2 ^ 32"
    by (simp add: from_le_le_bytes)
  then have "int (from_le ?S) = (if s < 0 then s + 2 ^ 32 else s)"
    by (simp only: signed32_mod [OF s])
  then have us: "unpack_l ?S = Inr s"
    using s by (simp add: unpack_l_def Let_def)
  have "from_be ([0, 0] @ rev ?B) = nat b"
    using b by (simp add: from_be_zero_pad from_be_rev from_le_le_bytes nat_less_iff)
  then have ub: "unpack_Q ([0, 0] @ rev ?B) = Inr b"
    using b by (simp add: unpack_Q_def)
  show ?thesis
    unfolding decode_packet_def t4 t6 d10 us ub frombuffer_words by simp
qed

lemma decode_packet_short:
  "length data < 10 \<Longrightarrow> decode_packet data = Inl StructError"
  by (auto simp: decode_packet_def unpack_l_def unpack_Q_def Let_def split: sum.splits)


text \<open>
  C6. For every sequence number \<open>s\<close> in the signed 32-bit range and every byte counter
  \<open>b\<close> with \<open>0 \<le> b < 2^48\<close>, a datagram in the wire format (four bytes of \<open>s\<close>,
  little-endian two's complement; six bytes of \<open>b\<close>, little-endian; the samples) is
  decoded to exactly \<open>s\<close> and \<open>b\<close> (and the samples).
\<close>

theorem packet_codec_round_trip:
  "- (2 ^ 31) \<le> s \<Longrightarrow> s < 2 ^ 31 \<Longrightarrow> 0 \<le> b \<Longrightarrow> b < 2 ^ 48 \<Longrightarrow>
   decode_packet (encode_packet s b ws) = Inr (s, b, ws)"
  by (rule decode_encode_packet)

theorem packet_codec_round_trip_witness:
  "- (2 ^ 31) \<le> (- 2 :: int) \<and> (- 2 :: int) < 2 ^ 31
   \<and> (0 :: int) \<le> 281474976710655 \<and> (281474976710655 :: int) < 2 ^ 48
   \<and> encode_packet (- 2) 281474976710655 [1, 65535]
       = [0xFE, 0xFF, 0xFF, 0xFF, 0xFF, 0xFF, 0xFF, 0xFF, 0xFF, 0xFF, 1, 0, 0xFF, 0xFF]
   \<and> decode_packet [0xFE, 0xFF, 0xFF, 0xFF, 0xFF, 0xFF, 0xFF, 0xFF, 0xFF, 0xFF, 1, 0, 0xFF, 0xFF]
       = Inr (- 2, 281474976710655, [1, 65535])"
proof -
  have e: "encode_packet (- 2) 281474976710655 [1, 65535]
       = [0xFE, 0xFF, 0xFF, 0xFF, 0xFF, 0xFF, 0xFF, 0xFF, 0xFF, 0xFF, 1, 0, 0xFF, 0xFF]"
    by (simp add: encode_packet_def le_bytes_2 le_bytes_4 le_bytes_6)
  show ?thesis
    using packet_codec_round_trip [of "- 2" 281474976710655 "[1, 65535]"] e by simp
qed

section \<open>The receive loops, one datagram at a time\<close>

declare read_wait.simps [simp del] read_rest.simps [simp del] read_frames_loop.simps [simp del]

lemma read_wait_Nil: "read_wait [] ret_frame = Inl Timeout"
  by (subst read_wait.simps) simp

lemma read_wait_Cons:
  "read_wait (data # sock) ret_frame =
     (case decode_packet data of
        Inl e \<Rightarrow> Inl e
      | Inr (packet_num, byte_count, packet_data) \<Rightarrow>
          if byte_count mod BYTES_IN_FRAME_CLIPPED = 0 then
            (case set_slice ret_frame 0 UINT16_IN_PACKET packet_data of
               Inl e \<Rightarrow> Inl e
             | Inr ret_frame' \<Rightarrow> Inr (ret_frame', 1, sock))
          else read_wait sock ret_frame)"
  by (subst read_wait.simps) (simp split: sum.splits prod.splits)

lemma read_rest_Nil: "read_rest [] ret_frame packets_read = Inl Timeout"
  by (subst read_rest.simps) simp

lemma read_rest_Cons:
  "read_rest (data # sock) ret_frame packets_read =
     (case decode_packet data of
        Inl e \<Rightarrow> Inl e
      | Inr (packet_num, byte_count, packet_data) \<Rightarrow>
          if byte_count mod BYTES_IN_FRAME_CLIPPED = 0 then
            Inr (ret_frame, PACKETS_IN_FRAME_CLIPPED - (packets_read + 1), sock)
          else
            read_rest sock (place_packet ret_frame packet_num packet_data)
              (if packets_read + 1 > PACKETS_IN_FRAME_CLIPPED then 0 else packets_read + 1))"
  by (subst read_rest.simps) (simp split: sum.splits prod.splits)

lemma read_frames_loop_Nil: "read_frames_loop [] ret_frame packets_read data_end_byte = Inl Timeout"
  by (subst read_frames_loop.simps) simp

lemma read_frames_loop_Cons:
  "read_frames_loop (data # sock) ret_frame packets_read data_end_byte =
     (case decode_packet data of
        Inl e \<Rightarrow> Inl e
      | Inr (packet_num, byte_count, packet_data) \<Rightarrow>
          if byte_count \<ge> data_end_byte then Inl TypeError
          else
            (case set_item ret_frame (packet_num - 1) packet_data of
               Inl e \<Rightarrow> Inl e
             | Inr ret_frame' \<Rightarrow>
                 read_frames_loop sock ret_frame' (packets_read + 1) data_end_byte))"
  by (subst read_frames_loop.simps) (simp split: sum.splits prod.splits)

section \<open>The slot write of the single-frame read\<close>

lemma slot_range:
  "0 \<le> (packet_num - 1) mod PACKETS_IN_FRAME_CLIPPED \<and> (packet_num - 1) mod PACKETS_IN_FRAME_CLIPPED < 360"
  by (simp add: PACKETS_IN_FRAME_CLIPPED_val)

lemma set_slice_slot:
  assumes "int (length a) = UINT16_IN_FRAME" and "0 \<le> idx" and "idx < 360"
  shows "set_slice a (idx * UINT16_IN_PACKET) ((idx + 1) * UINT16_IN_PACKET) v =
          (if length v = 728 then Inr (take (nat idx * 728) a @ v @ drop (nat idx * 728 + 728) a)
           else if length v = 1 then Inr (take (nat idx * 728) a @ replicate 728 (hd v) @ drop (nat idx * 728 + 728) a)
           else Inl ValueError)"
proof -
  have n: "int (length a) = 262144" using assms(1) by (simp add: UINT16_IN_FRAME_val)
  have s1: "slice_bound (int (length a)) (idx * UINT16_IN_PACKET) = nat idx * 728"
    using assms(2,3) n by (simp add: slice_bound_def UINT16_IN_PACKET_val nat_mult_distrib)
  have s2: "slice_bound (int (length a)) ((idx + 1) * UINT16_IN_PACKET) = nat idx * 728 + 728"
    using assms(2,3) n by (simp add: slice_bound_def UINT16_IN_PACKET_val nat_mult_distrib nat_add_distrib algebra_simps)
  show ?thesis
    unfolding set_slice_def Let_def s1 s2 by simp
qed


text \<open>
  C10. In the second loop of \<^verbatim>\<open>read\<close>, on the frame of \<open>UINT16_IN_FRAME\<close> = 262144 words
  allocated at its start, the slot index \<open>(packet_num - 1) mod PACKETS_IN_FRAME_CLIPPED\<close>
  lies in \<open>[0, 360)\<close>, \<open>360 * 728 = 262080\<close> does not exceed the length of the frame, the
  end of every slot lies within the frame, the write of a payload of exactly 728 words
  does not raise, and whenever the write raises the payload does not have 728 words.
\<close>

theorem slot_write_in_bounds:
  assumes "int (length ret_frame) = UINT16_IN_FRAME"
  shows "0 \<le> (packet_num - 1) mod PACKETS_IN_FRAME_CLIPPED
       \<and> (packet_num - 1) mod PACKETS_IN_FRAME_CLIPPED < 360
       \<and> 360 * UINT16_IN_PACKET = 262080
       \<and> 262080 \<le> UINT16_IN_FRAME
       \<and> ((packet_num - 1) mod PACKETS_IN_FRAME_CLIPPED + 1) * UINT16_IN_PACKET \<le> UINT16_IN_FRAME
       \<and> (length packet_data = 728 \<longrightarrow>
            (\<exists>ret_frame'. set_slice ret_frame
               ((packet_num - 1) mod PACKETS_IN_FRAME_CLIPPED * UINT16_IN_PACKET)
               (((packet_num - 1) mod PACKETS_IN_FRAME_CLIPPED + 1) * UINT16_IN_PACKET)
               packet_data = Inr ret_frame'))
       \<and> (\<forall>e. set_slice ret_frame
               ((packet_num - 1) mod PACKETS_IN_FRAME_CLIPPED * UINT16_IN_PACKET)
               (((packet_num - 1) mod PACKETS_IN_FRAME_CLIPPED + 1) * UINT16_IN_PACKET)
               packet_data = Inl e \<longrightarrow> length packet_data \<noteq> 728)"
proof -
  let ?idx = "(packet_num - 1) mod PACKETS_IN_FRAME_CLIPPED"
  have r: "0 \<le> ?idx" "?idx < 360" using slot_range [of packet_num] by auto
  have b: "(?idx + 1) * UINT16_IN_PACKET \<le> UINT16_IN_FRAME"
    using r by (simp add: UINT16_IN_PACKET_val UINT16_IN_FRAME_val)
  have w: "set_slice ret_frame (?idx * UINT16_IN_PACKET) ((?idx + 1) * UINT16_IN_PACKET) packet_data =
          (if length packet_data = 728
           then Inr (take (nat ?idx * 728) ret_frame @ packet_data @ drop (nat ?idx * 728 + 728) ret_frame)
           else if length packet_data = 1
           then Inr (take (nat ?idx * 728) ret_frame @ replicate 728 (hd packet_data)
                     @ drop (nat ?idx * 728 + 728) ret_frame)
           else Inl ValueError)"
    by (rule set_slice_slot [OF assms r])
  have c: "360 * UINT16_IN_PACKET = 262080" "262080 \<le> UINT16_IN_FRAME"
    by (simp_all add: UINT16_IN_PACKET_val UINT16_IN_FRAME_val)
  show ?thesis
    unfolding w using r b c by (auto split: if_splits)
qed

theorem slot_write_in_bounds_witness:
  "int (length (replicate 262144 (0 :: uint16))) = UINT16_IN_FRAME
   \<and> (362 - 1) mod PACKETS_IN_FRAME_CLIPPED = 1
   \<and> set_slice (replicate 262144 (0 :: uint16)) (1 * UINT16_IN_PACKET) ((1 + 1) * UINT16_IN_PACKET)
        (replicate 728 7) = Inr (replicate 728 0 @ replicate 728 7 @ replicate 260688 0)"
proof -
  have l: "int (length (replicate 262144 (0 :: uint16))) = UINT16_IN_FRAME"
    by (simp add: UINT16_IN_FRAME_val)
  have i: "(362 - 1) mod PACKETS_IN_FRAME_CLIPPED = 1"
    by (simp add: PACKETS_IN_FRAME_CLIPPED_val)
  have "set_slice (replicate 262144 (0 :: uint16)) (1 * UINT16_IN_PACKET) ((1 + 1) * UINT16_IN_PACKET)
        (replicate 728 7) = Inr (replicate 728 0 @ replicate 728 7 @ replicate 260688 0)"
    using set_slice_slot [OF l, of 1 "replicate 728 7"] by simp
  with slot_write_in_bounds [OF l, of 362 "replicate 728 7"] l i show ?thesis by simp
qed

section \<open>The sample reorganizer\<close>

text \<open>
  C2 (as amended). With one frame, two chirps, two receivers, one sample per chirp and
  two components, the samples \<open>[1, 2, 3, 4, 5, 6, 7, 8]\<close> become a 1 x 2 x 2 x 1 tensor
  whose element (0,0,0,0) is \<open>1 + 3i\<close> and whose element (0,1,1,0) is \<open>6 + 8i\<close>: the
  receiver is the innermost axis of the reshape, so the real and the imaginary part of
  one value lie \<open>num_rx\<close> positions apart.
\<close>

theorem organize_frames_example:
  "organize_frames [1, 2, 3, 4, 5, 6, 7, 8] 1 2 2 1 2
     = Inr [[[[Complex 1 3], [Complex 2 4]], [[Complex 5 7], [Complex 6 8]]]]
   \<and> [[[[Complex 1 3], [Complex 2 4]], [[Complex 5 7], [Complex 6 8]]]] ! 0 ! 0 ! 0 ! 0 = Complex 1 3
   \<and> [[[[Complex 1 3], [Complex 2 4]], [[Complex 5 7], [Complex 6 8]]]] ! 0 ! 1 ! 1 ! 0 = Complex 6 8"
  by (simp add: organize_frames_def flat_index_def Let_def upt_conv_Cons)

text \<open>
  The elements that the claim as first stated asks for, \<open>1 + 2i\<close> at (0,0,0,0) and
  \<open>7 + 8i\<close> at (0,1,1,0), are not the elements of the result.
\<close>

theorem organize_frames_not_adjacent_pairs:
  "organize_frames [1, 2, 3, 4, 5, 6, 7, 8] 1 2 2 1 2
     = Inr [[[[Complex 1 3], [Complex 2 4]], [[Complex 5 7], [Complex 6 8]]]]
   \<and> [[[[Complex 1 3], [Complex 2 4]], [[Complex 5 7], [Complex 6 8]]]] ! 0 ! 0 ! 0 ! 0 \<noteq> Complex 1 2
   \<and> [[[[Complex 1 3], [Complex 2 4]], [[Complex 5 7], [Complex 6 8]]]] ! 0 ! 1 ! 1 ! 0 \<noteq> Complex 7 8"
  by (simp add: organize_frames_def flat_index_def Let_def upt_conv_Cons)

section \<open>The multi-frame read\<close>

lemma read_frames_loop_never_returns:
  "read_frames_loop sock ret_frame packets_read data_end_byte \<noteq> Inr r"
  by (induction sock arbitrary: ret_frame packets_read)
     (auto simp: read_frames_loop_Nil read_frames_loop_Cons split: sum.splits prod.splits)

text \<open>
  C4. The claim asks that two calls of \<^verbatim>\<open>read_frames\<close> for one frame each, the second
  seeded with the leftover of the first, return the same two frames as one call for
  two frames. In the code no call of \<^verbatim>\<open>read_frames\<close> returns at all: on every socket,
  for every leftover and every number of frames, it ends in an exception.
\<close>

theorem read_frames_never_returns:
  "read_frames leftover num_frames sock \<noteq> Inr r"
  by (auto simp: read_frames_def Let_def read_frames_loop_never_returns split: sum.splits prod.splits)

section \<open>The single-frame read on a stream of packets\<close>

subsection \<open>Slot writes keep the length of the frame\<close>

lemma set_slice_first:
  assumes "int (length a) = UINT16_IN_FRAME"
  shows "set_slice a 0 UINT16_IN_PACKET v =
          (if length v = 728 then Inr (v @ drop 728 a)
           else if length v = 1 then Inr (replicate 728 (hd v) @ drop 728 a)
           else Inl ValueError)"
proof -
  have "set_slice a (0 * UINT16_IN_PACKET) ((0 + 1) * UINT16_IN_PACKET) v =
          (if length v = 728 then Inr (take (nat 0 * 728) a @ v @ drop (nat 0 * 728 + 728) a)
           else if length v = 1 then Inr (take (nat 0 * 728) a @ replicate 728 (hd v) @ drop (nat 0 * 728 + 728) a)
           else Inl ValueError)"
    by (rule set_slice_slot [OF assms]) simp_all
  then show ?thesis by simp
qed

lemma slice_bound_le: "slice_bound (int n) i \<le> n"
  by (simp add: slice_bound_def nat_le_iff)

lemma length_set_slice:
  assumes "set_slice a i j v = Inr a'"
  shows "length a' = length a"
proof -
  let ?start = "slice_bound (int (length a)) i"
  let ?stop = "slice_bound (int (length a)) j"
  have le: "?start \<le> length a" "?stop \<le> length a"
    by (rule slice_bound_le)+
  have "a' = take ?start a @ v @ drop (?start + (?stop - ?start)) a \<and> length v = ?stop - ?start
      \<or> a' = take ?start a @ replicate (?stop - ?start) (hd v) @ drop (?start + (?stop - ?start)) a"
    using assms unfolding set_slice_def Let_def by (simp split: if_splits)
  then show ?thesis
    using le by (elim disjE conjE) simp_all
qed

lemma length_place_packet [simp]:
  "length (place_packet ret_frame packet_num packet_data) = length ret_frame"
  by (simp add: place_packet_def Let_def length_set_slice split: sum.splits)

lemma length_place_datagram [simp]:
  "length (place_datagram data ret_frame) = length ret_frame"
  by (simp add: place_datagram_def split: sum.splits prod.splits)

lemma read_rest_interior:
  assumes "\<forall>d \<in> set ds. interior d"
    and "decode_packet t = Inr (packet_num, byte_count, packet_data)"
    and "byte_count mod BYTES_IN_FRAME_CLIPPED = 0"
  shows "read_rest (ds @ t # rest) ret_frame packets_read =
           Inr (fold place_datagram ds ret_frame,
                PACKETS_IN_FRAME_CLIPPED - (fold (\<lambda>d. count_packet) ds packets_read + 1), rest)"
  using assms(1)
proof (induction ds arbitrary: ret_frame packets_read)
  case Nil
  then show ?case using assms(2,3) by (simp add: read_rest_Cons)
next
  case (Cons d ds)
  from Cons.prems obtain pn bc pd where d: "decode_packet d = Inr (pn, bc, pd)"
    and na: "bc mod BYTES_IN_FRAME_CLIPPED \<noteq> 0"
    by (auto simp: interior_def split: sum.splits)
  have rest: "\<forall>d \<in> set ds. interior d" using Cons.prems by simp
  show ?case
    using d na Cons.IH [OF rest]
    by (simp add: read_rest_Cons place_datagram_def count_packet_def)
qed

subsection \<open>In-order synthetic packets\<close>

lemma fold_count_packet:
  "packets_read + int (length ds) \<le> PACKETS_IN_FRAME_CLIPPED \<Longrightarrow>
   fold (\<lambda>d. count_packet) ds packets_read = packets_read + int (length ds)"
proof (induction ds arbitrary: packets_read)
  case Nil
  then show ?case by simp
next
  case (Cons d ds)
  have c: "count_packet packets_read = packets_read + 1"
    using Cons.prems by (simp add: count_packet_def)
  have "fold (\<lambda>d. count_packet) ds (packets_read + 1) = packets_read + 1 + int (length ds)"
    using Cons.prems by (intro Cons.IH) simp
  then show ?case by (simp add: c)
qed

lemma aligned_iff:
  "(k * BYTES_IN_PACKET) mod BYTES_IN_FRAME_CLIPPED = 0 \<longleftrightarrow> k mod PACKETS_IN_FRAME_CLIPPED = 0"
proof -
  have "(k * 1456) mod (360 * 1456) = (k mod 360) * (1456 :: int)"
    by (rule mult_mod_left [symmetric])
  then show ?thesis
    by (simp add: BYTES_IN_PACKET_def BYTES_IN_FRAME_CLIPPED_val PACKETS_IN_FRAME_CLIPPED_val)
qed

lemma decode_synth_packet:
  assumes "1 \<le> n0" and "n0 + int i < 2 ^ 31"
  shows "decode_packet (synth_packet payload n0 i) =
           Inr (n0 + int i, (n0 + int i - 1) * BYTES_IN_PACKET, payload i)"
proof -
  have "(n0 + int i - 1) * 1456 < 2 ^ 31 * 1456" using assms by simp
  also have "\<dots> < (2 :: int) ^ 48" by simp
  finally have "(n0 + int i - 1) * BYTES_IN_PACKET < 2 ^ 48" by (simp add: BYTES_IN_PACKET_def)
  moreover have "0 \<le> (n0 + int i - 1) * BYTES_IN_PACKET" using assms by (simp add: BYTES_IN_PACKET_def)
  moreover have "- (2 ^ 31) \<le> n0 + int i" using assms by simp
  ultimately show ?thesis
    unfolding synth_packet_def using assms(2) by (intro decode_encode_packet) auto
qed

lemma synth_slot:
  assumes "(n0 - 1) mod PACKETS_IN_FRAME_CLIPPED = 0" and "i < 360"
  shows "(n0 + int i - 1) mod PACKETS_IN_FRAME_CLIPPED = int i"
proof -
  have "(n0 + int i - 1) mod 360 = ((n0 - 1) mod 360 + int i mod 360) mod 360"
    by (simp add: mod_add_eq algebra_simps)
  also have "\<dots> = int i" using assms by (simp add: PACKETS_IN_FRAME_CLIPPED_val)
  finally show ?thesis by (simp add: PACKETS_IN_FRAME_CLIPPED_val)
qed

lemma synth_interior:
  assumes "1 \<le> n0" and "n0 + int i < 2 ^ 31" and "(n0 - 1) mod PACKETS_IN_FRAME_CLIPPED = 0"
    and "0 < i" and "i < 360"
  shows "interior (synth_packet payload n0 i)"
  using assms synth_slot [OF assms(3,5)]
  by (simp add: interior_def decode_synth_packet aligned_iff)

lemma synth_boundary:
  assumes "(n0 - 1) mod PACKETS_IN_FRAME_CLIPPED = 0" and "i = 0 \<or> i = 360"
  shows "((n0 + int i - 1) * BYTES_IN_PACKET) mod BYTES_IN_FRAME_CLIPPED = 0"
proof -
  have "(n0 + int i - 1) mod 360 = ((n0 - 1) mod 360 + int i mod 360) mod 360"
    by (simp add: mod_add_eq algebra_simps)
  also have "\<dots> = 0" using assms by (auto simp: PACKETS_IN_FRAME_CLIPPED_val)
  finally show ?thesis by (simp add: aligned_iff PACKETS_IN_FRAME_CLIPPED_val)
qed

lemma length_concat_payload:
  "\<forall>j<k. length (payload j) = 728 \<Longrightarrow> length (concat (map payload [0..<k])) = 728 * k"
  by (induction k) simp_all

lemma place_synth_step:
  assumes n0: "1 \<le> n0" "n0 + int i < 2 ^ 31" "(n0 - 1) mod PACKETS_IN_FRAME_CLIPPED = 0"
    and i: "0 < i" "i < 360"
    and len: "\<forall>j<360. length (payload j) = 728"
  shows "place_datagram (synth_packet payload n0 i)
           (concat (map payload [0..<i]) @ replicate (262144 - 728 * i) 0)
         = concat (map payload [0..<Suc i]) @ replicate (262144 - 728 * Suc i) 0"
proof -
  let ?A = "concat (map payload [0..<i])"
  let ?f = "?A @ replicate (262144 - 728 * i) (0 :: uint16)"
  have lA: "length ?A = 728 * i"
    using len i by (intro length_concat_payload) simp
  have lf: "int (length ?f) = UINT16_IN_FRAME"
    using lA i by (simp add: UINT16_IN_FRAME_val)
  have li: "length (payload i) = 728" using len i by simp
  have slot: "(n0 + int i - 1) mod PACKETS_IN_FRAME_CLIPPED = int i"
    by (rule synth_slot [OF n0(3) i(2)])
  have w: "set_slice ?f (int i * UINT16_IN_PACKET) ((int i + 1) * UINT16_IN_PACKET) (payload i)
             = Inr (take (nat (int i) * 728) ?f @ payload i @ drop (nat (int i) * 728 + 728) ?f)"
    using set_slice_slot [OF lf, of "int i" "payload i"] i li by simp
  have t: "take (nat (int i) * 728) ?f = ?A"
    using lA by (simp add: mult.commute)
  have d: "drop (nat (int i) * 728 + 728) ?f = replicate (262144 - 728 * Suc i) 0"
    using lA by (simp add: mult.commute)
  have "place_datagram (synth_packet payload n0 i) ?f = ?A @ payload i @ replicate (262144 - 728 * Suc i) 0"
    unfolding place_datagram_def decode_synth_packet [OF n0(1,2)] place_packet_def Let_def
    unfolding sum.case prod.case slot w t d by simp
  then show ?thesis by simp
qed

lemma fold_place_synth:
  assumes n0: "1 \<le> n0" "n0 + 360 < 2 ^ 31" "(n0 - 1) mod PACKETS_IN_FRAME_CLIPPED = 0"
    and len: "\<forall>j<360. length (payload j) = 728"
  shows "0 < k \<Longrightarrow> k + m \<le> 360 \<Longrightarrow>
         fold place_datagram (map (synth_packet payload n0) [k..<k + m])
           (concat (map payload [0..<k]) @ replicate (262144 - 728 * k) 0)
         = concat (map payload [0..<k + m]) @ replicate (262144 - 728 * (k + m)) 0"
proof (induction m)
  case 0
  then show ?case by simp
next
  case (Suc m)
  have b: "n0 + int (k + m) < 2 ^ 31" using n0(2) Suc.prems by simp
  have step: "place_datagram (synth_packet payload n0 (k + m))
           (concat (map payload [0..<k + m]) @ replicate (262144 - 728 * (k + m)) 0)
         = concat (map payload [0..<Suc (k + m)]) @ replicate (262144 - 728 * Suc (k + m)) 0"
    using Suc.prems by (intro place_synth_step [OF n0(1) b n0(3) _ _ len]) simp_all
  have ih: "fold place_datagram (map (synth_packet payload n0) [k..<k + m])
           (concat (map payload [0..<k]) @ replicate (262144 - 728 * k) 0)
         = concat (map payload [0..<k + m]) @ replicate (262144 - 728 * (k + m)) 0"
    using Suc.prems by (intro Suc.IH) simp_all
  have "[k..<k + Suc m] = [k..<k + m] @ [k + m]" by simp
  then show ?case
    by (simp only: map_append fold_append o_apply ih list.map fold_simps step add_Suc_right id_apply)
qed

lemma synth_stream_361:
  "synth_stream payload n0 361 =
     synth_packet payload n0 0 # map (synth_packet payload n0) [1..<360] @ [synth_packet payload n0 360]"
proof -
  have a: "[0..<361] = 0 # [Suc 0..<361]" by (rule upt_conv_Cons) simp
  have b: "[Suc 0..<Suc 360] = [Suc 0..<360] @ [360]" by (rule upt_Suc_append) simp
  have c: "Suc 360 = 361" by simp
  have "[0..<361] = 0 # [1..<360] @ [360]"
    using a b [unfolded c] by (simp only: One_nat_def)
  then show ?thesis by (simp only: synth_stream_def list.map map_append)
qed

lemma read_first_packet:
  assumes "decode_packet d = Inr (packet_num, byte_count, packet_data)"
    and "byte_count mod BYTES_IN_FRAME_CLIPPED = 0"
    and "length packet_data = 728"
  shows "read (d # sock) = read_rest sock (packet_data @ replicate 261416 0) 1"
proof -
  have l: "int (length (replicate 262144 (0 :: uint16))) = UINT16_IN_FRAME"
    by (simp add: UINT16_IN_FRAME_val)
  have "set_slice (replicate 262144 (0 :: uint16)) 0 UINT16_IN_PACKET packet_data
          = Inr (packet_data @ replicate 261416 0)"
    using set_slice_first [OF l, of packet_data] assms(3) by simp
  then show ?thesis
    using assms(1,2) by (simp add: read_def zeros_def UINT16_IN_FRAME_val read_wait_Cons)
qed

subsection \<open>Writes to different slots commute\<close>

lemma nth_block_write:
  assumes "i * 728 + 728 \<le> length f" and "length v = 728" and "k < length f"
  shows "(take (i * 728) f @ v @ drop (i * 728 + 728) f) ! k =
           (if i * 728 \<le> k \<and> k < i * 728 + 728 then v ! (k - i * 728) else f ! k)"
proof -
  define t where "t = take (i * 728) f"
  define d where "d = drop (i * 728 + 728) f"
  have lt: "length t = i * 728" using assms(1) by (simp add: t_def)
  have tn: "t ! m = f ! m" if "m < i * 728" for m using that by (simp add: t_def)
  have dn: "d ! m = f ! (i * 728 + 728 + m)" if "i * 728 + 728 + m < length f" for m
    using that by (simp add: d_def)
  consider "k < i * 728" | "i * 728 \<le> k" "k < i * 728 + 728" | "i * 728 + 728 \<le> k"
    by linarith
  then have "(t @ v @ d) ! k = (if i * 728 \<le> k \<and> k < i * 728 + 728 then v ! (k - i * 728) else f ! k)"
  proof cases
    case 1
    then show ?thesis by (simp add: nth_append lt tn)
  next
    case 2
    then have "k - i * 728 < 728" by arith
    then show ?thesis using 2 assms(2) by (simp add: nth_append lt)
  next
    case 3
    then have "\<not> k < i * 728" and "\<not> k - i * 728 < 728" by arith+
    then have "(t @ v @ d) ! k = d ! (k - i * 728 - 728)"
      using assms(2) by (simp add: nth_append lt)
    also have "\<dots> = f ! (i * 728 + 728 + (k - i * 728 - 728))"
      using 3 assms(3) by (intro dn) arith
    also have "\<dots> = f ! k" using 3 by simp
    finally show ?thesis using 3 by simp
  qed
  then show ?thesis by (simp only: t_def d_def)
qed

lemma block_unique:
  fixes i j k :: nat
  assumes "i * 728 \<le> k" "k < i * 728 + 728" "j * 728 \<le> k" "k < j * 728 + 728"
  shows "i = j"
proof -
  have "k div 728 = i" using assms(1,2) by (intro div_nat_eqI) (simp_all add: mult.commute)
  moreover have "k div 728 = j" using assms(3,4) by (intro div_nat_eqI) (simp_all add: mult.commute)
  ultimately show ?thesis by simp
qed

lemma place_packet_nth:
  assumes lf: "int (length f) = UINT16_IN_FRAME" and k: "k < length f"
  shows "place_packet f pn pd ! k =
           (if nat ((pn - 1) mod PACKETS_IN_FRAME_CLIPPED) * 728 \<le> k
               \<and> k < nat ((pn - 1) mod PACKETS_IN_FRAME_CLIPPED) * 728 + 728
               \<and> (length pd = 728 \<or> length pd = 1)
            then (if length pd = 728 then pd ! (k - nat ((pn - 1) mod PACKETS_IN_FRAME_CLIPPED) * 728)
                  else hd pd)
            else f ! k)"
proof -
  let ?idx = "(pn - 1) mod PACKETS_IN_FRAME_CLIPPED"
  let ?i = "nat ?idx"
  have r: "0 \<le> ?idx" "?idx < 360" using slot_range [of pn] by auto
  have w: "set_slice f (?idx * UINT16_IN_PACKET) ((?idx + 1) * UINT16_IN_PACKET) pd =
          (if length pd = 728 then Inr (take (?i * 728) f @ pd @ drop (?i * 728 + 728) f)
           else if length pd = 1 then Inr (take (?i * 728) f @ replicate 728 (hd pd) @ drop (?i * 728 + 728) f)
           else Inl ValueError)"
    by (rule set_slice_slot [OF lf r])
  have "?i < 360" using r by simp
  then have "?i * 728 + 728 \<le> 262144" by simp
  then have b: "?i * 728 + 728 \<le> length f" using lf by (simp add: UINT16_IN_FRAME_val)
  consider "length pd = 728" | "length pd \<noteq> 728" "length pd = 1" | "length pd \<noteq> 728" "length pd \<noteq> 1"
    by blast
  then show ?thesis
  proof cases
    case 1
    then have "place_packet f pn pd = take (?i * 728) f @ pd @ drop (?i * 728 + 728) f"
      by (simp add: place_packet_def Let_def w)
    then show ?thesis using nth_block_write [OF b 1 k] 1 by simp
  next
    case 2
    then have "place_packet f pn pd = take (?i * 728) f @ replicate 728 (hd pd) @ drop (?i * 728 + 728) f"
      by (simp add: place_packet_def Let_def w)
    moreover have "?i * 728 \<le> k \<Longrightarrow> k < ?i * 728 + 728 \<Longrightarrow>
                     replicate 728 (hd pd) ! (k - ?i * 728) = hd pd"
      by (intro nth_replicate) arith
    ultimately show ?thesis
      using nth_block_write [OF b _ k, of "replicate 728 (hd pd)"] 2 by auto
  next
    case 3
    then have "place_packet f pn pd = f"
      by (simp add: place_packet_def Let_def w)
    then show ?thesis using 3 by simp
  qed
qed

lemma place_packet_commute:
  assumes lf: "int (length f) = UINT16_IN_FRAME"
    and ne: "(pn1 - 1) mod PACKETS_IN_FRAME_CLIPPED \<noteq> (pn2 - 1) mod PACKETS_IN_FRAME_CLIPPED"
  shows "place_packet (place_packet f pn1 pd1) pn2 pd2 = place_packet (place_packet f pn2 pd2) pn1 pd1"
proof (rule nth_equalityI)
  show "length (place_packet (place_packet f pn1 pd1) pn2 pd2)
          = length (place_packet (place_packet f pn2 pd2) pn1 pd1)" by simp
next
  fix k assume "k < length (place_packet (place_packet f pn1 pd1) pn2 pd2)"
  then have k: "k < length f" by simp
  let ?i = "nat ((pn1 - 1) mod PACKETS_IN_FRAME_CLIPPED)"
  let ?j = "nat ((pn2 - 1) mod PACKETS_IN_FRAME_CLIPPED)"
  have "0 \<le> (pn1 - 1) mod PACKETS_IN_FRAME_CLIPPED" "0 \<le> (pn2 - 1) mod PACKETS_IN_FRAME_CLIPPED"
    using slot_range by auto
  then have ij: "?i \<noteq> ?j" using ne by simp
  have excl: "\<not> (?i * 728 \<le> k \<and> k < ?i * 728 + 728 \<and> ?j * 728 \<le> k \<and> k < ?j * 728 + 728)"
    using ij block_unique [of ?i k ?j] by blast
  have l1: "int (length (place_packet f pn1 pd1)) = UINT16_IN_FRAME" using lf by simp
  have l2: "int (length (place_packet f pn2 pd2)) = UINT16_IN_FRAME" using lf by simp
  have k1: "k < length (place_packet f pn1 pd1)" using k by simp
  have k2: "k < length (place_packet f pn2 pd2)" using k by simp
  define c1 where "c1 = (?i * 728 \<le> k \<and> k < ?i * 728 + 728 \<and> (length pd1 = 728 \<or> length pd1 = 1))"
  define v1 where "v1 = (if length pd1 = 728 then pd1 ! (k - ?i * 728) else hd pd1)"
  define c2 where "c2 = (?j * 728 \<le> k \<and> k < ?j * 728 + 728 \<and> (length pd2 = 728 \<or> length pd2 = 1))"
  define v2 where "v2 = (if length pd2 = 728 then pd2 ! (k - ?j * 728) else hd pd2)"
  have n1: "place_packet g pn1 pd1 ! k = (if c1 then v1 else g ! k)"
    if "int (length g) = UINT16_IN_FRAME" "k < length g" for g
    unfolding c1_def v1_def by (rule place_packet_nth [OF that])
  have n2: "place_packet g pn2 pd2 ! k = (if c2 then v2 else g ! k)"
    if "int (length g) = UINT16_IN_FRAME" "k < length g" for g
    unfolding c2_def v2_def by (rule place_packet_nth [OF that])
  have "\<not> (c1 \<and> c2)" using excl unfolding c1_def c2_def by blast
  then show "place_packet (place_packet f pn1 pd1) pn2 pd2 ! k = place_packet (place_packet f pn2 pd2) pn1 pd1 ! k"
    by (simp add: n2 [OF l1 k1] n1 [OF l2 k2] n1 [OF lf k] n2 [OF lf k])
qed

lemma place_synth_commute:
  assumes n0: "1 \<le> n0" "n0 + 360 < 2 ^ 31" "(n0 - 1) mod PACKETS_IN_FRAME_CLIPPED = 0"
    and x: "x \<in> set (map (synth_packet payload n0) [1..<360])"
    and y: "y \<in> set (map (synth_packet payload n0) [1..<360])"
    and lf: "int (length f) = UINT16_IN_FRAME"
  shows "place_datagram x (place_datagram y f) = place_datagram y (place_datagram x f)"
proof -
  from x obtain i where i: "x = synth_packet payload n0 i" "i < 360" by auto
  from y obtain j where j: "y = synth_packet payload n0 j" "j < 360" by auto
  have di: "decode_packet x = Inr (n0 + int i, (n0 + int i - 1) * BYTES_IN_PACKET, payload i)"
    unfolding i(1) using n0 i(2) by (intro decode_synth_packet) simp_all
  have dj: "decode_packet y = Inr (n0 + int j, (n0 + int j - 1) * BYTES_IN_PACKET, payload j)"
    unfolding j(1) using n0 j(2) by (intro decode_synth_packet) simp_all
  show ?thesis
  proof (cases "i = j")
    case True
    then show ?thesis using i j by simp
  next
    case False
    then have "(n0 + int j - 1) mod PACKETS_IN_FRAME_CLIPPED \<noteq> (n0 + int i - 1) mod PACKETS_IN_FRAME_CLIPPED"
      by (simp add: synth_slot [OF n0(3) i(2)] synth_slot [OF n0(3) j(2)])
    then show ?thesis
      unfolding place_datagram_def di dj sum.case prod.case
      by (rule place_packet_commute [OF lf])
  qed
qed

lemma fold_place_permuted:
  assumes n0: "1 \<le> n0" "n0 + 360 < 2 ^ 31" "(n0 - 1) mod PACKETS_IN_FRAME_CLIPPED = 0"
    and perm: "mset qs = mset (map (synth_packet payload n0) [1..<360])"
    and lf: "int (length f) = UINT16_IN_FRAME"
  shows "fold place_datagram qs f = fold place_datagram (map (synth_packet payload n0) [1..<360]) f"
proof (rule fold_permuted_eq [where P = "\<lambda>f. int (length f) = UINT16_IN_FRAME", symmetric])
  show "mset (map (synth_packet payload n0) [1..<360]) = mset qs" using perm by simp
  show "int (length f) = UINT16_IN_FRAME" by (rule lf)
  show "int (length (place_datagram x z)) = UINT16_IN_FRAME"
    if "int (length z) = UINT16_IN_FRAME" for x z using that by simp
  show "place_datagram x (place_datagram y z) = place_datagram y (place_datagram x z)"
    if "x \<in> set (map (synth_packet payload n0) [1..<360])"
       "y \<in> set (map (synth_packet payload n0) [1..<360])"
       "int (length z) = UINT16_IN_FRAME" for x y z
    by (rule place_synth_commute [OF n0 that])
qed

lemma synth_interior_all:
  assumes n0: "1 \<le> n0" "n0 + 360 < 2 ^ 31" "(n0 - 1) mod PACKETS_IN_FRAME_CLIPPED = 0"
  shows "\<forall>d \<in> set (map (synth_packet payload n0) [1..<360]). interior d"
proof
  fix d assume "d \<in> set (map (synth_packet payload n0) [1..<360])"
  then obtain i where i: "d = synth_packet payload n0 i" "0 < i" "i < 360" by auto
  have "n0 + int i < 2 ^ 31" using n0(2) i(3) by simp
  then show "interior d"
    unfolding i(1) using i(2,3) by (intro synth_interior [OF n0(1) _ n0(3)])
qed

lemma read_permuted_frame:
  assumes n0: "1 \<le> n0" "n0 + 360 < 2 ^ 31" "(n0 - 1) mod PACKETS_IN_FRAME_CLIPPED = 0"
    and len: "\<forall>j<360. length (payload j) = 728"
    and perm: "mset qs = mset (map (synth_packet payload n0) [1..<360])"
  shows "read (synth_packet payload n0 0 # qs @ synth_packet payload n0 360 # rest) =
           Inr (concat (map payload [0..<360]) @ replicate 64 0, - 1, rest)"
proof -
  let ?ds = "map (synth_packet payload n0) [1..<360]"
  let ?f1 = "payload 0 @ replicate 261416 (0 :: uint16)"
  have d0: "decode_packet (synth_packet payload n0 0) = Inr (n0 + int 0, (n0 + int 0 - 1) * BYTES_IN_PACKET, payload 0)"
    using n0 by (intro decode_synth_packet) simp_all
  have a0: "((n0 + int 0 - 1) * BYTES_IN_PACKET) mod BYTES_IN_FRAME_CLIPPED = 0"
    by (rule synth_boundary [OF n0(3)]) simp
  have l0: "length (payload 0) = 728" using len by simp
  have d360: "decode_packet (synth_packet payload n0 360) = Inr (n0 + int 360, (n0 + int 360 - 1) * BYTES_IN_PACKET, payload 360)"
    using n0 by (intro decode_synth_packet) simp_all
  have a360: "((n0 + int 360 - 1) * BYTES_IN_PACKET) mod BYTES_IN_FRAME_CLIPPED = 0"
    by (rule synth_boundary [OF n0(3)]) simp
  have "set qs = set ?ds" using perm by (rule mset_eq_setD)
  then have int: "\<forall>d \<in> set qs. interior d"
    using synth_interior_all [OF n0, of payload] by simp
  have lq: "length qs = 359" using mset_eq_length [OF perm] by simp
  have lf1: "int (length ?f1) = UINT16_IN_FRAME" using l0 by (simp add: UINT16_IN_FRAME_val)
  have f1: "?f1 = concat (map payload [0..<1]) @ replicate (262144 - 728 * 1) (0 :: uint16)"
    by simp
  have fold: "fold place_datagram (map (synth_packet payload n0) [1..<1 + 359])
           (concat (map payload [0..<1]) @ replicate (262144 - 728 * 1) 0)
         = concat (map payload [0..<1 + 359]) @ replicate (262144 - 728 * (1 + 359)) 0"
    by (rule fold_place_synth [OF n0 len]) simp_all
  have "fold place_datagram ?ds ?f1 = concat (map payload [0..<360]) @ replicate 64 0"
    using fold unfolding f1 [symmetric] by simp
  then have fold': "fold place_datagram qs ?f1 = concat (map payload [0..<360]) @ replicate 64 0"
    using fold_place_permuted [OF n0 perm lf1] by simp
  have cnt: "fold (\<lambda>d. count_packet) qs 1 = 1 + int (length qs)"
    by (rule fold_count_packet) (simp add: PACKETS_IN_FRAME_CLIPPED_val lq)
  have "read (synth_packet payload n0 0 # qs @ synth_packet payload n0 360 # rest)
          = read_rest (qs @ synth_packet payload n0 360 # rest) ?f1 1"
    by (rule read_first_packet [OF d0 a0 l0])
  also have "\<dots> = Inr (fold place_datagram qs ?f1,
                PACKETS_IN_FRAME_CLIPPED - (fold (\<lambda>d. count_packet) qs 1 + 1), rest)"
    by (rule read_rest_interior [OF int d360 a360])
  also have "\<dots> = Inr (concat (map payload [0..<360]) @ replicate 64 0, - 1, rest)"
    unfolding fold' cnt by (simp add: PACKETS_IN_FRAME_CLIPPED_val lq)
  finally show ?thesis .
qed

subsection \<open>One frame of an in-order stream\<close>

lemma length_payload_example: "length (payload_example j) = 728"
  by (simp add: payload_example_def)

lemma one_is_frame_start: "((1 :: int) - 1) mod PACKETS_IN_FRAME_CLIPPED = 0"
  by simp

lemma read_synth_frame:
  assumes n0: "1 \<le> n0" "n0 + 360 < 2 ^ 31" "(n0 - 1) mod PACKETS_IN_FRAME_CLIPPED = 0"
    and len: "\<forall>j<360. length (payload j) = 728"
  shows "read (synth_stream payload n0 361 @ rest) =
           Inr (concat (map payload [0..<360]) @ replicate 64 0, - 1, rest)"
  using read_permuted_frame [OF n0 len refl, of rest] by (simp add: synth_stream_361)

lemma payload_example_lengths:
  "map (\<lambda>j. length (payload_example j)) [0..<360] = replicate 360 728"
  by (simp add: length_payload_example map_replicate_const)

text \<open>
  C1 (as amended). An in-order stream is fed to \<^verbatim>\<open>read\<close>: packet \<open>i\<close> has the sequence
  number \<open>n0 + i\<close> and the byte counter \<open>(n0 + i - 1) * 1456\<close>, the first packet starts a
  frame, no packet is missing, and each of the 360 packets of that frame carries 728
  samples. Then \<^verbatim>\<open>read\<close> returns, when the first packet of the next frame arrives, the
  buffer of 262144 samples that holds the payloads of the frame's 360 packets in order,
  followed by 64 zero samples. (Nothing is stated about the loss counter.)
\<close>

theorem in_order_frame_reassembled:
  assumes "1 \<le> n0" and "n0 + 360 < 2 ^ 31" and "(n0 - 1) mod PACKETS_IN_FRAME_CLIPPED = 0"
    and "map (\<lambda>j. length (payload j)) [0..<360] = replicate 360 728"
  shows "\<exists>lost. read (synth_stream payload n0 361 @ rest) =
           Inr (concat (map payload [0..<360]) @ replicate 64 0, lost, rest)"
proof -
  have "\<forall>j<360. length (payload j) = 728"
  proof (intro allI impI)
    fix j :: nat assume j: "j < 360"
    have "map (\<lambda>j. length (payload j)) [0..<360] ! j = replicate 360 728 ! j"
      using assms(4) by simp
    then show "length (payload j) = 728" using j by simp
  qed
  from read_synth_frame [OF assms(1-3) this, of rest] show ?thesis by blast
qed

theorem in_order_frame_reassembled_witness:
  "(1 :: int) \<le> 1 \<and> (1 :: int) + 360 < 2 ^ 31 \<and> ((1 :: int) - 1) mod PACKETS_IN_FRAME_CLIPPED = 0
   \<and> map (\<lambda>j. length (payload_example j)) [0..<360] = replicate 360 728
   \<and> (\<exists>lost. read (synth_stream payload_example 1 361 @ []) =
           Inr (concat (map payload_example [0..<360]) @ replicate 64 0, lost, []))"
  using in_order_frame_reassembled [OF _ _ one_is_frame_start payload_example_lengths, of "[]"]
    payload_example_lengths by simp

text \<open>
  The claim as first stated fails on the stream of 361 packets numbered from 1, packet
  \<open>i\<close> filled with the value \<open>i + 1\<close>: the buffer returned has 262144 samples while the
  payloads of the frame together have 262080, and the value stored in
  \<^verbatim>\<open>self.lost_packets\<close> is \<open>-1\<close>, not 0.
\<close>

theorem in_order_frame_padded_and_loss_negative:
  "read (synth_stream payload_example 1 361) =
     Inr (concat (map payload_example [0..<360]) @ replicate 64 0, - 1, [])
   \<and> length (concat (map payload_example [0..<360]) @ replicate 64 (0 :: uint16)) = 262144
   \<and> length (concat (map payload_example [0..<360])) = 262080
   \<and> concat (map payload_example [0..<360]) @ replicate 64 0 \<noteq> concat (map payload_example [0..<360])
   \<and> (- 1 :: int) \<noteq> 0"
proof -
  have l: "\<forall>j<360. length (payload_example j) = 728" by (simp add: length_payload_example)
  have r: "read (synth_stream payload_example 1 361 @ []) =
     Inr (concat (map payload_example [0..<360]) @ replicate 64 0, - 1, [])"
    by (rule read_synth_frame [OF _ _ one_is_frame_start l]) simp_all
  have c: "length (concat (map payload_example [0..<360])) = 728 * 360"
    by (rule length_concat_payload [OF l])
  show ?thesis using r c by simp
qed

subsection \<open>Permuted delivery\<close>

text \<open>
  C5 (as amended). Take an in-order stream that \<^verbatim>\<open>read\<close> reassembles: the first packet
  of a frame, the 359 packets that follow it, and the first packet of the next frame,
  each of the frame's packets with 728 samples. Whenever the 359 packets inside the
  frame are delivered in any other order, the two packets that start a frame staying
  first and last, \<^verbatim>\<open>read\<close> returns the same buffer as for the in-order delivery.
\<close>

theorem interior_permutation_same_frame:
  assumes "1 \<le> n0" and "n0 + 360 < 2 ^ 31" and "(n0 - 1) mod PACKETS_IN_FRAME_CLIPPED = 0"
    and "map (\<lambda>j. length (payload j)) [0..<360] = replicate 360 728"
    and "mset qs = mset (map (synth_packet payload n0) [1..<360])"
  shows "\<exists>frame lost.
           read (synth_stream payload n0 361 @ rest) = Inr (frame, lost, rest)
         \<and> read (synth_packet payload n0 0 # qs @ synth_packet payload n0 360 # rest)
             = Inr (frame, lost, rest)"
proof -
  have len: "\<forall>j<360. length (payload j) = 728"
  proof (intro allI impI)
    fix j :: nat assume j: "j < 360"
    have "map (\<lambda>j. length (payload j)) [0..<360] ! j = replicate 360 728 ! j"
      using assms(4) by simp
    then show "length (payload j) = 728" using j by simp
  qed
  show ?thesis
    using read_synth_frame [OF assms(1-3) len, of rest]
      read_permuted_frame [OF assms(1-3) len assms(5), of rest] by blast
qed

theorem interior_permutation_same_frame_witness:
  "(1 :: int) \<le> 1 \<and> (1 :: int) + 360 < 2 ^ 31 \<and> ((1 :: int) - 1) mod PACKETS_IN_FRAME_CLIPPED = 0
   \<and> map (\<lambda>j. length (payload_example j)) [0..<360] = replicate 360 728
   \<and> mset (rev (map (synth_packet payload_example 1) [1..<360]))
        = mset (map (synth_packet payload_example 1) [1..<360])
   \<and> (\<exists>frame lost.
           read (synth_stream payload_example 1 361 @ []) = Inr (frame, lost, [])
         \<and> read (synth_packet payload_example 1 0 # rev (map (synth_packet payload_example 1) [1..<360])
                    @ synth_packet payload_example 1 360 # [])
             = Inr (frame, lost, []))"
proof -
  have p: "mset (rev (map (synth_packet payload_example 1) [1..<360]))
        = mset (map (synth_packet payload_example 1) [1..<360])" by (rule mset_rev)
  show ?thesis
    using interior_permutation_same_frame [OF _ _ one_is_frame_start payload_example_lengths p, of "[]"]
      payload_example_lengths by simp
qed

lemma read_two_boundaries:
  assumes "decode_packet d = Inr (pn, bc, pd)" "bc mod BYTES_IN_FRAME_CLIPPED = 0" "length pd = 728"
    and "decode_packet t = Inr (pn', bc', pd')" "bc' mod BYTES_IN_FRAME_CLIPPED = 0"
  shows "read (d # t # rest) = Inr (pd @ replicate 261416 0, 358, rest)"
  using read_first_packet [OF assms(1-3), of "t # rest"] assms(4,5)
  by (simp add: read_rest_Cons PACKETS_IN_FRAME_CLIPPED_val)

lemma decode_example_0:
  "decode_packet (synth_packet payload_example 1 0) = Inr (1, 0, payload_example 0)"
  using decode_synth_packet [of 1 0 payload_example] by simp

lemma decode_example_360:
  "decode_packet (synth_packet payload_example 1 360) = Inr (361, 524160, payload_example 360)"
  using decode_synth_packet [of 1 360 payload_example] by (simp add: BYTES_IN_PACKET_def)

lemma read_example_early_end:
  "read (synth_packet payload_example 1 0 # synth_packet payload_example 1 360 # rest)
     = Inr (payload_example 0 @ replicate 261416 0, 358, rest)"
  by (rule read_two_boundaries [OF decode_example_0 _ length_payload_example decode_example_360])
     (simp_all add: BYTES_IN_FRAME_CLIPPED_val)

lemma upt_360_head: "[0..<360] = 0 # 1 # [2..<360]"
proof -
  have a: "[0..<360] = 0 # [Suc 0..<360]" by (rule upt_conv_Cons) simp
  have b: "[Suc 0..<360] = Suc 0 # [Suc (Suc 0)..<360]" by (rule upt_conv_Cons) simp
  have c: "Suc (Suc 0) = 2" by simp
  show ?thesis using a b [unfolded c] by (simp only: One_nat_def)
qed

lemma example_frame_at_728:
  "(concat (map payload_example [0..<360]) @ replicate 64 0) ! 728 = 2"
proof -
  have "concat (map payload_example [0..<360]) @ replicate 64 0
          = payload_example 0 @ (payload_example 1 @ concat (map payload_example [2..<360]) @ replicate 64 0)"
    by (simp only: upt_360_head list.map concat.simps append_assoc)
  moreover have "payload_example 1 = 2 # replicate 727 2"
    by (simp add: payload_example_def replicate_Suc [symmetric] del: replicate_Suc)
  ultimately show ?thesis
    by (simp add: nth_append length_payload_example)
qed

lemma early_end_frame_at_728:
  "(payload_example 0 @ replicate 261416 (0 :: uint16)) ! 728 = 0"
  by (simp add: nth_append length_payload_example)

lemma mset_boundary_moved: "mset (a # b # xs) = mset (a # xs @ [b])"
  by simp

text \<open>
  The claim as first stated, for every permutation of the stream, fails when the packet
  that starts the next frame is delivered second: \<^verbatim>\<open>read\<close> then returns at once, with
  only the first packet in the buffer. The two buffers differ at index 728.
\<close>

theorem early_boundary_packet_changes_frame:
  "mset (synth_packet payload_example 1 0 # synth_packet payload_example 1 360
           # map (synth_packet payload_example 1) [1..<360])
     = mset (synth_stream payload_example 1 361)
   \<and> read (synth_stream payload_example 1 361)
       = Inr (concat (map payload_example [0..<360]) @ replicate 64 0, - 1, [])
   \<and> read (synth_packet payload_example 1 0 # synth_packet payload_example 1 360
             # map (synth_packet payload_example 1) [1..<360])
       = Inr (payload_example 0 @ replicate 261416 0, 358, map (synth_packet payload_example 1) [1..<360])
   \<and> (concat (map payload_example [0..<360]) @ replicate 64 0) ! 728 = 2
   \<and> (payload_example 0 @ replicate 261416 (0 :: uint16)) ! 728 = 0"
proof -
  have l: "\<forall>j<360. length (payload_example j) = 728" by (simp add: length_payload_example)
  have r: "read (synth_stream payload_example 1 361 @ []) =
     Inr (concat (map payload_example [0..<360]) @ replicate 64 0, - 1, [])"
    by (rule read_synth_frame [OF _ _ one_is_frame_start l]) simp_all
  have m: "mset (synth_packet payload_example 1 0 # synth_packet payload_example 1 360
           # map (synth_packet payload_example 1) [1..<360])
     = mset (synth_stream payload_example 1 361)"
    unfolding synth_stream_361 by (rule mset_boundary_moved)
  show ?thesis
    using r m read_example_early_end [of "map (synth_packet payload_example 1) [1..<360]"]
      example_frame_at_728 early_end_frame_at_728
    by (simp only: append_Nil2 simp_thms)
qed

section \<open>Undersized datagrams\<close>

text \<open>
  C7 (as amended). For every datagram shorter than 10 bytes the decoding in
  \<^verbatim>\<open>_read_data_packet\<close> fails (with \<^verbatim>\<open>struct.error\<close>), and no loop of \<^verbatim>\<open>read\<close> catches
  the failure: whichever loop receives the datagram, \<^verbatim>\<open>read\<close> ends with that error.
\<close>

theorem short_datagram_aborts_read:
  "length data < 10 \<Longrightarrow>
     decode_packet data = Inl StructError
   \<and> read_data_packet (data # sock) = Inl StructError
   \<and> read_wait (data # sock) ret_frame = Inl StructError
   \<and> read_rest (data # sock) ret_frame packets_read = Inl StructError
   \<and> read (data # sock) = Inl StructError"
  by (simp add: decode_packet_short read_wait_Cons read_rest_Cons read_def zeros_def UINT16_IN_FRAME_val)

theorem short_datagram_aborts_read_witness:
  "length [1, 0, 0, 0, 0, 0, 0, 0, 0 :: byte] < 10
   \<and> decode_packet [1, 0, 0, 0, 0, 0, 0, 0, 0] = Inl StructError
   \<and> read_rest ([1, 0, 0, 0, 0, 0, 0, 0, 0] # []) (replicate 262144 0) 1 = Inl StructError
   \<and> read ([1, 0, 0, 0, 0, 0, 0, 0, 0] # []) = Inl StructError"
  using short_datagram_aborts_read [of "[1, 0, 0, 0, 0, 0, 0, 0, 0]" "[]" "replicate 262144 0" 1] by simp

text \<open>
  The claim as first stated says that the receive loop drops the datagram and goes on.
  On a socket that delivers a datagram of nine bytes and then two packets that start a
  frame, \<^verbatim>\<open>read\<close> ends with the error, although the two packets alone make it return.
\<close>

theorem short_datagram_not_dropped:
  "read ([1, 0, 0, 0, 0, 0, 0, 0, 0]
         # [synth_packet payload_example 1 0, synth_packet payload_example 1 360])
     = Inl StructError
   \<and> read [synth_packet payload_example 1 0, synth_packet payload_example 1 360]
     = Inr (payload_example 0 @ replicate 261416 0, 358, [])"
proof -
  have "length [1, 0, 0, 0, 0, 0, 0, 0, 0 :: byte] < 10" by simp
  then have "decode_packet [1, 0, 0, 0, 0, 0, 0, 0, 0] = Inl StructError"
    by (rule decode_packet_short)
  then have "read ([1, 0, 0, 0, 0, 0, 0, 0, 0]
         # [synth_packet payload_example 1 0, synth_packet payload_example 1 360]) = Inl StructError"
    by (simp add: read_def zeros_def UINT16_IN_FRAME_val read_wait_Cons)
  then show ?thesis using read_example_early_end [of "[]"] by simp
qed

section \<open>The multi-frame read at the end offset\<close>

text \<open>
  C3. The claim asks that the packet whose byte counter reaches
  \<open>data_start_byte + num_frames * BYTES_IN_FRAME\<close> is split between the returned frames
  and the leftover. In the code that packet ends the call with \<^verbatim>\<open>TypeError\<close>: for one
  frame and no leftover, after a first packet with the byte counter 1456 the end offset
  is 524288; the call waits for the next packet (and times out when there is none), and
  a second packet with the byte counter 525616 raises.
\<close>

theorem read_frames_boundary_packet_raises:
  "read_frames [] 1 [encode_packet 1 1456 (payload_example 0)] = Inl Timeout
   \<and> read_frames [] 1 [encode_packet 1 1456 (payload_example 0),
                       encode_packet 361 525616 (payload_example 360)] = Inl TypeError"
proof -
  have d1: "decode_packet (encode_packet 1 1456 (payload_example 0)) = Inr (1, 1456, payload_example 0)"
    by (rule decode_encode_packet) simp_all
  have d2: "decode_packet (encode_packet 361 525616 (payload_example 360)) = Inr (361, 525616, payload_example 360)"
    by (rule decode_encode_packet) simp_all
  have l: "int (length (replicate 262144 (0 :: uint16))) = UINT16_IN_FRAME"
    by (simp add: UINT16_IN_FRAME_val)
  have w: "set_slice (replicate 262144 (0 :: uint16)) 0 UINT16_IN_PACKET (payload_example 0)
          = Inr (payload_example 0 @ replicate 261416 0)"
    using set_slice_first [OF l, of "payload_example 0"] by (simp add: length_payload_example)
  show ?thesis
    by (simp add: read_frames_def Let_def zeros_def UINT16_IN_FRAME_val d1 d2 w
        read_frames_loop_Cons read_frames_loop_Nil BYTES_IN_PACKET_def BYTES_IN_FRAME_val)
qed

end
